theory Spec2Isabelle
  imports Complex_Main
begin

section \<open>Tensors\<close>

text \<open>
  A dense tensor is its shape and its elements in row-major order, as a contiguous
  \<^verbatim>\<open>torch.Tensor\<close> is. A dimension may have size 0, so the shape is kept beside the
  elements: the shapes \<open>(0, 5)\<close> and \<open>(0, 7)\<close> both have no element and differ.
\<close>

record 'a tensor =
  shape :: "nat list"
  elems :: "'a list"

datatype error = RuntimeError | IndexError | ZeroDivisionError

definition bindE :: "error + 'a \<Rightarrow> ('a \<Rightarrow> error + 'b) \<Rightarrow> error + 'b" where
  "bindE m f = (case m of Inl e \<Rightarrow> Inl e | Inr x \<Rightarrow> f x)"

text \<open>Row-major position of a multi-index, and the multi-index of a position.\<close>

fun ravel :: "nat list \<Rightarrow> nat list \<Rightarrow> nat" where
  "ravel (n # ns) (i # js) = i * prod_list ns + ravel ns js"
| "ravel _ _ = 0"

fun unravel :: "nat list \<Rightarrow> nat \<Rightarrow> nat list" where
  "unravel [] k = []"
| "unravel (n # ns) k = (k div prod_list ns) # unravel ns (k mod prod_list ns)"

definition valid_index :: "nat list \<Rightarrow> nat list \<Rightarrow> bool" where
  "valid_index sh idx = list_all2 (<) idx sh"

definition wf_tensor :: "'a tensor \<Rightarrow> bool" where
  "wf_tensor t = (length (elems t) = prod_list (shape t))"

definition tget :: "'a tensor \<Rightarrow> nat list \<Rightarrow> 'a" where
  "tget t idx = elems t ! ravel (shape t) idx"

text \<open>The tensor of a given shape whose element at each multi-index is \<open>f\<close> of it.\<close>

definition build :: "nat list \<Rightarrow> (nat list \<Rightarrow> 'a) \<Rightarrow> 'a tensor" where
  "build sh f = \<lparr>shape = sh, elems = map (\<lambda>k. f (unravel sh k)) [0..<prod_list sh]\<rparr>"

definition tmap :: "('a \<Rightarrow> 'b) \<Rightarrow> 'a tensor \<Rightarrow> 'b tensor" where
  "tmap f t = \<lparr>shape = shape t, elems = map f (elems t)\<rparr>"

subsection \<open>Broadcasting\<close>

text \<open>
  Two shapes are compared from the trailing dimension: sizes must be equal, or one of
  them 1, or one of them absent. The broadcast size of 1 and \<open>n\<close> is \<open>n\<close>, also for
  \<open>n = 0\<close>.
\<close>

fun bc_rev :: "nat list \<Rightarrow> nat list \<Rightarrow> nat list option" where
  "bc_rev [] ys = Some ys"
| "bc_rev (x # xs) [] = Some (x # xs)"
| "bc_rev (x # xs) (y # ys) =
     (if x = y \<or> y = 1 then map_option ((#) x) (bc_rev xs ys)
      else if x = 1 then map_option ((#) y) (bc_rev xs ys)
      else None)"

definition broadcast_shapes :: "nat list \<Rightarrow> nat list \<Rightarrow> nat list option" where
  "broadcast_shapes a b = map_option rev (bc_rev (rev a) (rev b))"

text \<open>
  \<open>expandable src tgt\<close>: a tensor of shape \<open>src\<close> can be expanded to the shape \<open>tgt\<close>
  (what an in-place copy into a slice requires of the assigned value).
\<close>

definition expandable :: "nat list \<Rightarrow> nat list \<Rightarrow> bool" where
  "expandable src tgt = (broadcast_shapes src tgt = Some tgt)"

text \<open>
  The index into a tensor of shape \<open>sh\<close> that an index of the broadcast shape reads:
  the trailing \<open>length sh\<close> components (the two are aligned at the trailing
  end), with 0 wherever \<open>sh\<close> has size 1.
\<close>

definition bidx :: "nat list \<Rightarrow> nat list \<Rightarrow> nat list" where
  "bidx sh idx = rev (map2 (\<lambda>n i. if n = 1 then 0 else i) (rev sh) (rev idx))"

text \<open>Elementwise binary operation with broadcasting; incompatible shapes raise.\<close>

definition tzip :: "('a \<Rightarrow> 'b \<Rightarrow> 'c) \<Rightarrow> 'a tensor \<Rightarrow> 'b tensor \<Rightarrow> error + 'c tensor" where
  "tzip f a b =
     (case broadcast_shapes (shape a) (shape b) of
        None \<Rightarrow> Inl RuntimeError
      | Some sh \<Rightarrow>
          Inr (build sh (\<lambda>idx. f (tget a (bidx (shape a) idx)) (tget b (bidx (shape b) idx)))))"

section \<open>Sinusoidal positional embedding\<close>

text \<open>
  The library operations \<^verbatim>\<open>__init__\<close> uses. Python integers are \<open>int\<close>; 32-bit floats
  are idealised as real numbers (no rounding).
\<close>

definition zeros :: "int \<Rightarrow> int \<Rightarrow> error + real tensor" where
  "zeros r c =
     (if r < 0 \<or> c < 0 then Inl RuntimeError
      else Inr (build [nat r, nat c] (\<lambda>_. 0)))"

text \<open>\<^verbatim>\<open>torch.arange(0, stop, step)\<close> for a positive step, as floats.\<close>

definition arange :: "int \<Rightarrow> int \<Rightarrow> error + real tensor" where
  "arange stop step =
     (if stop < 0 then Inl RuntimeError
      else Inr (build [nat ((stop + step - 1) div step)] (\<lambda>idx. real_of_int (int (idx ! 0) * step))))"

definition unsqueeze1 :: "'a tensor \<Rightarrow> 'a tensor" where
  "unsqueeze1 t = t\<lparr>shape := take 1 (shape t) @ [1] @ drop 1 (shape t)\<rparr>"

definition py_div :: "real \<Rightarrow> int \<Rightarrow> error + real" where
  "py_div a b = (if b = 0 then Inl ZeroDivisionError else Inr (a / real_of_int b))"

text \<open>
  \<^verbatim>\<open>t[:, start::step] = v\<close> on a matrix \<open>t\<close>: the selected columns are
  \<open>start, start + step, ...\<close>; \<open>v\<close> must expand to the shape of the selection.
\<close>

definition setitem_cols :: "nat \<Rightarrow> nat \<Rightarrow> real tensor \<Rightarrow> real tensor \<Rightarrow> error + real tensor" where
  "setitem_cols start step t v =
     (let rows = shape t ! 0; cols = shape t ! 1;
          tgt = [rows, (cols - start + step - 1) div step]
      in if expandable (shape v) tgt
         then Inr (build (shape t) (\<lambda>idx.
                 let p = idx ! 0; c = idx ! 1
                 in if start \<le> c \<and> (c - start) mod step = 0
                    then tget v (bidx (shape v) [p, (c - start) div step])
                    else tget t idx))
         else Inl RuntimeError)"

text \<open>The table that \<^verbatim>\<open>__init__\<close> computes, line by line.\<close>

definition pe_table :: "int \<Rightarrow> int \<Rightarrow> error + real tensor" where
  "pe_table max_seq_len d_model =
     bindE (zeros max_seq_len d_model) (\<lambda>pe.
     bindE (arange max_seq_len 1) (\<lambda>ar.
     let position = unsqueeze1 ar in
     bindE (arange d_model 2) (\<lambda>ar2.
     bindE (py_div (- ln 10000) d_model) (\<lambda>c.
     let div_term = tmap exp (tmap (\<lambda>x. x * c) ar2) in
     bindE (tzip (*) position div_term) (\<lambda>pd.
     bindE (setitem_cols 0 2 pe (tmap sin pd)) (\<lambda>pe.
     bindE (tzip (*) position div_term) (\<lambda>pd'.
     setitem_cols 1 2 pe (tmap cos pd'))))))))"

subsection \<open>The module and its buffer\<close>

text \<open>
  Tensors that may share storage are views into a heap of storages: a view is a storage
  address, an offset, a shape and strides. Slicing and \<^verbatim>\<open>unsqueeze\<close> return views of
  the storage of their argument.
\<close>

type_synonym heap = "real list list"

record tview =
  base :: nat
  offset :: nat
  vshape :: "nat list"
  strides :: "nat list"

fun contiguous_strides :: "nat list \<Rightarrow> nat list" where
  "contiguous_strides [] = []"
| "contiguous_strides (n # ns) = prod_list ns # contiguous_strides ns"

definition address :: "tview \<Rightarrow> nat list \<Rightarrow> nat" where
  "address v idx = offset v + sum_list (map2 (*) idx (strides v))"

text \<open>The tensor value that a view denotes in a heap.\<close>

definition deref :: "heap \<Rightarrow> tview \<Rightarrow> real tensor" where
  "deref h v = build (vshape v) (\<lambda>idx. (h ! base v) ! address v idx)"

record SinusoidalPositionalEmbedding =
  pe :: tview

text \<open>
  \<^verbatim>\<open>__init__\<close>: the table is computed into a fresh storage and registered as the
  buffer \<^verbatim>\<open>pe\<close>. (The source allocates it filled with zeros and assigns the even and
  the odd columns in place; the intermediate tensors are dropped.)
\<close>

definition SinusoidalPositionalEmbedding_init ::
  "int \<Rightarrow> int \<Rightarrow> heap \<Rightarrow> error + (SinusoidalPositionalEmbedding \<times> heap)" where
  "SinusoidalPositionalEmbedding_init max_seq_len d_model h =
     bindE (pe_table max_seq_len d_model) (\<lambda>t.
       Inr (\<lparr>pe = \<lparr>base = length h, offset = 0, vshape = shape t,
                    strides = contiguous_strides (shape t)\<rparr>\<rparr>,
            h @ [elems t]))"

text \<open>\<^verbatim>\<open>v[:n, :]\<close> on a matrix view: Python clamps the stop of a slice to the size.\<close>

definition slice_rows :: "nat \<Rightarrow> tview \<Rightarrow> tview" where
  "slice_rows n v = v\<lparr>vshape := min n (vshape v ! 0) # tl (vshape v)\<rparr>"

definition unsqueeze0 :: "tview \<Rightarrow> tview" where
  "unsqueeze0 v =
     v\<lparr>vshape := 1 # vshape v,
       strides := (case (vshape v, strides v) of (n # _, s # _) \<Rightarrow> n * s | _ \<Rightarrow> 1) # strides v\<rparr>"

text \<open>
  \<^verbatim>\<open>forward\<close>: \<^verbatim>\<open>self.pe[:x.shape[1], :].unsqueeze(0)\<close>. \<^verbatim>\<open>x.shape[1]\<close> raises IndexError
  for an \<open>x\<close> of fewer than two dimensions. The heap is returned as it was received.
\<close>

definition forward ::
  "SinusoidalPositionalEmbedding \<Rightarrow> 'a tensor \<Rightarrow> heap \<Rightarrow> error + (tview \<times> heap)" where
  "forward self x h =
     (if length (shape x) < 2 then Inl IndexError
      else Inr (unsqueeze0 (slice_rows (shape x ! 1) (pe self)), h))"

text \<open>An in-place write \<^verbatim>\<open>v[idx] = a\<close> by a holder of the view \<open>v\<close>.\<close>

definition setitem_view :: "tview \<Rightarrow> nat list \<Rightarrow> real \<Rightarrow> heap \<Rightarrow> error + heap" where
  "setitem_view v idx a h =
     (if valid_index (vshape v) idx
      then Inr (h[base v := (h ! base v)[address v idx := a]])
      else Inl IndexError)"


text \<open>The angle \<^verbatim>\<open>position * div_term\<close> as the code computes it, and the resulting entry.\<close>

definition angle :: "int \<Rightarrow> nat \<Rightarrow> nat \<Rightarrow> real" where
  "angle d p i = real p * exp (real_of_int (int i * 2) * (- ln 10000 / real_of_int d))"

definition pe_entry :: "int \<Rightarrow> nat \<Rightarrow> nat \<Rightarrow> real" where
  "pe_entry d p c = (if even c then sin (angle d p (c div 2)) else cos (angle d p (c div 2)))"

section \<open>Scaled dot-product attention\<close>

subsection \<open>Float values\<close>

text \<open>
  A float is idealised as a real number, or one of the two infinities, or NaN: the
  attention function writes \<open>-inf\<close> into masked scores, and NaN arises from \<open>0 / 0\<close>.
  Rounding, overflow and the sign of zero are not modelled; a zero divisor is taken as
  \<open>+0\<close> (the divisors here are a square root and a sum of exponentials).
\<close>

datatype fval = Fin real | PInf | NInf | NaN

fun fadd :: "fval \<Rightarrow> fval \<Rightarrow> fval" where
  "fadd NaN _ = NaN"
| "fadd _ NaN = NaN"
| "fadd PInf NInf = NaN"
| "fadd NInf PInf = NaN"
| "fadd PInf _ = PInf"
| "fadd _ PInf = PInf"
| "fadd NInf _ = NInf"
| "fadd _ NInf = NInf"
| "fadd (Fin x) (Fin y) = Fin (x + y)"

fun fneg :: "fval \<Rightarrow> fval" where
  "fneg (Fin x) = Fin (- x)"
| "fneg PInf = NInf"
| "fneg NInf = PInf"
| "fneg NaN = NaN"

fun fmul :: "fval \<Rightarrow> fval \<Rightarrow> fval" where
  "fmul NaN _ = NaN"
| "fmul _ NaN = NaN"
| "fmul (Fin x) (Fin y) = Fin (x * y)"
| "fmul (Fin x) i = (if x = 0 then NaN else if 0 < x then i else fneg i)"
| "fmul i (Fin y) = (if y = 0 then NaN else if 0 < y then i else fneg i)"
| "fmul PInf i = i"
| "fmul NInf i = fneg i"

fun fdiv :: "fval \<Rightarrow> fval \<Rightarrow> fval" where
  "fdiv NaN _ = NaN"
| "fdiv _ NaN = NaN"
| "fdiv (Fin x) (Fin y) =
     (if y = 0 then (if x = 0 then NaN else if 0 < x then PInf else NInf) else Fin (x / y))"
| "fdiv (Fin x) _ = Fin 0"
| "fdiv i (Fin y) = (if y < 0 then fneg i else i)"
| "fdiv _ _ = NaN"

fun fexp :: "fval \<Rightarrow> fval" where
  "fexp (Fin x) = Fin (exp x)"
| "fexp PInf = PInf"
| "fexp NInf = Fin 0"
| "fexp NaN = NaN"

definition fsum :: "fval list \<Rightarrow> fval" where
  "fsum xs = foldl fadd (Fin 0) xs"

subsection \<open>Library operations\<close>

text \<open>\<^verbatim>\<open>t.transpose(-2, -1)\<close>; a tensor of fewer than two dimensions raises IndexError.\<close>

definition transpose_last2 :: "'a tensor \<Rightarrow> error + 'a tensor" where
  "transpose_last2 t =
     (let sh = shape t; r = length sh
      in if r < 2 then Inl IndexError
         else Inr (build (take (r - 2) sh @ [sh ! (r - 1), sh ! (r - 2)])
                (\<lambda>idx. tget t (take (r - 2) idx @ [idx ! (r - 1), idx ! (r - 2)]))))"

text \<open>
  Batched matrix product of two tensors of at least two dimensions: the inner sizes
  must agree and the leading (batch) dimensions are broadcast.
\<close>

definition bmm :: "fval tensor \<Rightarrow> fval tensor \<Rightarrow> error + fval tensor" where
  "bmm a b =
     (let sa = shape a; sb = shape b; ra = length sa; rb = length sb;
          ba = take (ra - 2) sa; bb = take (rb - 2) sb;
          m = sa ! (ra - 2); n = sa ! (ra - 1); n' = sb ! (rb - 2); p = sb ! (rb - 1)
      in if n \<noteq> n' then Inl RuntimeError
         else case broadcast_shapes ba bb of
                None \<Rightarrow> Inl RuntimeError
              | Some bsh \<Rightarrow>
                  Inr (build (bsh @ [m, p]) (\<lambda>idx.
                    let bs = take (length bsh) idx; i = idx ! length bsh;
                        j = idx ! Suc (length bsh)
                    in fsum (map (\<lambda>l. fmul (tget a (bidx ba bs @ [i, l]))
                                           (tget b (bidx bb bs @ [l, j]))) [0..<n]))))"

text \<open>
  \<^verbatim>\<open>torch.matmul\<close>: a 0-dimensional argument raises; a 1-dimensional first argument
  gets a leading dimension of size 1, a 1-dimensional second argument a trailing one,
  and the added dimensions are removed from the result.
\<close>

definition matmul :: "fval tensor \<Rightarrow> fval tensor \<Rightarrow> error + fval tensor" where
  "matmul a b =
     (let ra = length (shape a); rb = length (shape b)
      in if ra = 0 \<or> rb = 0 then Inl RuntimeError
         else bindE (bmm (if ra = 1 then a\<lparr>shape := 1 # shape a\<rparr> else a)
                         (if rb = 1 then b\<lparr>shape := shape b @ [1]\<rparr> else b)) (\<lambda>r.
              Inr (if ra = 1 \<and> rb = 1 then r\<lparr>shape := []\<rparr>
                   else if ra = 1
                     then r\<lparr>shape := take (length (shape r) - 2) (shape r) @ [last (shape r)]\<rparr>
                   else if rb = 1 then r\<lparr>shape := butlast (shape r)\<rparr>
                   else r)))"

text \<open>
  \<^verbatim>\<open>self.masked_fill(mask, value)\<close>, out of place: \<open>self\<close> and the mask are broadcast
  to a common shape.
\<close>

definition masked_fill :: "'a tensor \<Rightarrow> bool tensor \<Rightarrow> 'a \<Rightarrow> error + 'a tensor" where
  "masked_fill self msk val =
     (case broadcast_shapes (shape msk) (shape self) of
        None \<Rightarrow> Inl RuntimeError
      | Some sh \<Rightarrow>
          Inr (build sh (\<lambda>idx. if tget msk (bidx (shape msk) idx) then val
                               else tget self (bidx (shape self) idx))))"

text \<open>
  \<^verbatim>\<open>F.softmax(t, dim=-1)\<close>: every entry is its exponential divided by the sum of the
  exponentials along the last axis, as the library documents it. (The library subtracts
  the maximum of the row first; over the reals that changes nothing, and on a row of
  \<open>-inf\<close> both give NaN.) A 0-dimensional tensor is one row of one entry.
\<close>

definition softmax :: "fval tensor \<Rightarrow> fval tensor" where
  "softmax t =
     (if shape t = [] then build [] (\<lambda>idx. fdiv (fexp (tget t [])) (fsum [fexp (tget t [])]))
      else build (shape t) (\<lambda>idx.
             fdiv (fexp (tget t idx))
                  (fsum (map (\<lambda>j. fexp (tget t (butlast idx @ [j]))) [0..<last (shape t)]))))"

subsection \<open>The attention function\<close>

text \<open>
  The mask \<open>msk\<close> is a tensor of floats; a boolean mask has 0 for False and 1 for True.
  \<^verbatim>\<open>q.shape[-1]\<close> raises IndexError for a 0-dimensional \<open>q\<close>.
\<close>

definition scaled_dot_product_attention ::
  "fval tensor \<Rightarrow> fval tensor \<Rightarrow> fval tensor \<Rightarrow> fval tensor option
     \<Rightarrow> error + (fval tensor \<times> fval tensor)" where
  "scaled_dot_product_attention q k v msk =
     (if shape q = [] then Inl IndexError
      else
        let d_k = last (shape q) in
        bindE (transpose_last2 k) (\<lambda>kT.
        bindE (matmul q kT) (\<lambda>qk.
        bindE (tzip fdiv qk (build [] (\<lambda>_. Fin (sqrt (real d_k))))) (\<lambda>scores.
        bindE (case msk of
                 None \<Rightarrow> Inr scores
               | Some m \<Rightarrow> masked_fill scores (tmap (\<lambda>x. x = Fin 0) m) NInf) (\<lambda>scores.
        let attention_weights = softmax scores in
        bindE (matmul attention_weights v) (\<lambda>output.
        Inr (output, attention_weights)))))))"

subsection \<open>Entrywise description of the result\<close>

text \<open>
  The batch dimensions and the sequence length of a tensor of shape \<open>(..., n, d)\<close>.
\<close>

definition batch :: "'a tensor \<Rightarrow> nat list" where
  "batch t = take (length (shape t) - 2) (shape t)"

definition seq_len :: "'a tensor \<Rightarrow> nat" where
  "seq_len t = shape t ! (length (shape t) - 2)"

text \<open>
  The entries that the attention function computes, in float arithmetic: the scaled
  score of query \<open>i\<close> and key \<open>j\<close> in batch \<open>bs\<close>, whether a position is masked, the
  score after masking, and the softmax weight.
\<close>

definition score_at :: "fval tensor \<Rightarrow> fval tensor \<Rightarrow> nat list \<Rightarrow> nat \<Rightarrow> nat \<Rightarrow> fval" where
  "score_at q k bs i j =
     fdiv (fsum (map (\<lambda>l. fmul (tget q (bidx (batch q) bs @ [i, l]))
                              (tget k (bidx (batch k) bs @ [j, l]))) [0..<last (shape q)]))
          (Fin (sqrt (real (last (shape q)))))"

definition masked_at :: "fval tensor option \<Rightarrow> nat list \<Rightarrow> bool" where
  "masked_at msk idx = (case msk of None \<Rightarrow> False | Some m \<Rightarrow> tget m (bidx (shape m) idx) = Fin 0)"

definition mscore_at ::
  "fval tensor \<Rightarrow> fval tensor \<Rightarrow> fval tensor option \<Rightarrow> nat list \<Rightarrow> nat \<Rightarrow> nat \<Rightarrow> fval" where
  "mscore_at q k msk bs i j = (if masked_at msk (bs @ [i, j]) then NInf else score_at q k bs i j)"

definition weight_at ::
  "fval tensor \<Rightarrow> fval tensor \<Rightarrow> fval tensor option \<Rightarrow> nat list \<Rightarrow> nat \<Rightarrow> nat \<Rightarrow> fval" where
  "weight_at q k msk bs i j =
     fdiv (fexp (mscore_at q k msk bs i j))
          (fsum (map (\<lambda>j'. fexp (mscore_at q k msk bs i j')) [0..<seq_len k]))"





section \<open>Index arithmetic and tensor lemmas\<close>

lemma shape_build [simp]: "shape (build sh f) = sh" by (simp add: build_def)
lemma wf_build [simp]: "wf_tensor (build sh f)" by (simp add: build_def wf_tensor_def)
lemma shape_tmap [simp]: "shape (tmap f t) = shape t" by (simp add: tmap_def)
lemma wf_tmap [simp]: "wf_tensor (tmap f t) = wf_tensor t" by (simp add: tmap_def wf_tensor_def)

lemma valid_index_Nil [simp]: "valid_index [] idx = (idx = [])" "valid_index sh [] = (sh = [])"
  by (auto simp: valid_index_def)
lemma valid_index_Cons [simp]: "valid_index (n # ns) (i # js) = (i < n \<and> valid_index ns js)"
  by (auto simp: valid_index_def)
lemma valid_index_length: "valid_index sh idx \<Longrightarrow> length idx = length sh"
  by (auto simp: valid_index_def dest: list_all2_lengthD)

lemma ravel_less: "valid_index sh idx \<Longrightarrow> ravel sh idx < prod_list sh"
proof (induction sh idx rule: ravel.induct)
  case (1 n ns i js)
  then have r: "ravel ns js < prod_list ns" and i: "i < n" by auto
  have "i * prod_list ns + ravel ns js < i * prod_list ns + prod_list ns" using r by simp
  also have "\<dots> = Suc i * prod_list ns" by simp
  also have "\<dots> \<le> n * prod_list ns" using i by (intro mult_le_mono1) simp
  finally show ?case by simp
qed (auto)

lemma unravel_ravel: "valid_index sh idx \<Longrightarrow> unravel sh (ravel sh idx) = idx"
proof (induction sh idx rule: ravel.induct)
  case (1 n ns i js)
  then have r: "ravel ns js < prod_list ns" by (auto intro: ravel_less)
  with 1 show ?case by simp
qed (auto)

lemma tget_build: "valid_index sh idx \<Longrightarrow> tget (build sh f) idx = f idx"
  using ravel_less[of sh idx] by (simp add: tget_def build_def unravel_ravel)

lemma tget_tmap: "wf_tensor t \<Longrightarrow> valid_index (shape t) idx \<Longrightarrow> tget (tmap f t) idx = f (tget t idx)"
  using ravel_less[of "shape t" idx] by (simp add: tget_def tmap_def wf_tensor_def)

lemma tmap_build: "tmap g (build sh f) = build sh (\<lambda>idx. g (f idx))"
  by (simp add: tmap_def build_def)

lemma valid_unravel: "k < prod_list sh \<Longrightarrow> valid_index sh (unravel sh k)"
proof (induction sh arbitrary: k)
  case (Cons n ns)
  have pos: "0 < prod_list ns" using Cons.prems by (cases "prod_list ns") auto
  have "k div prod_list ns < n" using Cons.prems pos
    by (simp add: less_mult_imp_div_less mult.commute)
  moreover have "k mod prod_list ns < prod_list ns" using pos by simp
  ultimately show ?case using Cons.IH by simp
qed simp

lemma build_cong: "(\<And>idx. valid_index sh idx \<Longrightarrow> f idx = g idx) \<Longrightarrow> build sh f = build sh g"
  by (simp add: build_def valid_unravel)

lemma valid_index2E:
  assumes "valid_index [a, b] idx"
  obtains p i where "idx = [p, i]" "p < a" "i < b"
  using assms by (cases idx; cases "tl idx") (auto simp: valid_index_def)

lemma bs_col: "broadcast_shapes [L, Suc 0] [h] = Some [L, h]"
  by (simp add: broadcast_shapes_def)

lemma expandable2: "expandable [L, c] [L, f] = (c = f \<or> c = 1)"
  by (auto simp: expandable_def broadcast_shapes_def)

lemma bidx2_same: "p < L \<Longrightarrow> i < h \<Longrightarrow> bidx [L, h] [p, i] = [p, i]"
  by (auto simp: bidx_def)

lemma bidx_col: "p < L \<Longrightarrow> bidx [L, Suc 0] [p, i] = [p, 0]"
  by (auto simp: bidx_def)

lemma bidx_row: "i < h \<Longrightarrow> bidx [h] [p, i] = [i]"
  by (auto simp: bidx_def)

lemma shape_unsqueeze1: "shape (unsqueeze1 (build [L] f)) = [L, Suc 0]"
  by (simp add: unsqueeze1_def)

lemma tget_unsqueeze1: "p < L \<Longrightarrow> tget (unsqueeze1 (build [L] f)) [p, 0] = f [p]"
  by (simp add: unsqueeze1_def tget_def build_def)

lemma pd_value:
  "tzip (*) (unsqueeze1 (build [L] (\<lambda>idx. real_of_int (int (idx ! 0) * 1))))
           (tmap exp (tmap (\<lambda>x. x * (- ln 10000 / real_of_int d))
              (build [h] (\<lambda>idx. real_of_int (int (idx ! 0) * 2)))))
         = Inr (build [L, h] (\<lambda>idx. angle d (idx ! 0) (idx ! 1)))"
proof -
  have "build [L, h] (\<lambda>idx. tget (unsqueeze1 (build [L] (\<lambda>idx. real_of_int (int (idx ! 0) * 1)))) (bidx [L, Suc 0] idx)
            * tget (build [h] (\<lambda>idx. exp (real_of_int (int (idx ! 0) * 2) * (- ln 10000 / real_of_int d)))) (bidx [h] idx))
      = build [L, h] (\<lambda>idx. angle d (idx ! 0) (idx ! 1))"
  proof (rule build_cong)
    fix idx assume "valid_index [L, h] idx"
    then obtain p i where idx: "idx = [p, i]" and p: "p < L" and i: "i < h"
      by (rule valid_index2E)
    show "tget (unsqueeze1 (build [L] (\<lambda>idx. real_of_int (int (idx ! 0) * 1)))) (bidx [L, Suc 0] idx)
            * tget (build [h] (\<lambda>idx. exp (real_of_int (int (idx ! 0) * 2) * (- ln 10000 / real_of_int d)))) (bidx [h] idx)
        = angle d (idx ! 0) (idx ! 1)"
      unfolding idx bidx_col[OF p] bidx_row[OF i] tget_unsqueeze1[OF p]
      using i by (simp add: tget_build angle_def)
  qed
  then show ?thesis
    by (simp add: tzip_def shape_unsqueeze1 tmap_build bs_col)
qed

lemma setitem_even:
  assumes "shape t = [L, d]" "shape v = [L, c]" "c = (d + 1) div 2 \<or> c = 1"
  shows "setitem_cols 0 2 t v = Inr (build [L, d] (\<lambda>idx.
           if even (idx ! 1) then tget v (bidx [L, c] [idx ! 0, idx ! 1 div 2]) else tget t idx))"
proof -
  have e: "expandable [L, c] [L, (d - 0 + 2 - 1) div 2]"
    using assms(3) by (auto simp: expandable2)
  have "(\<lambda>idx. let p = idx ! 0; c' = idx ! 1
                 in if 0 \<le> c' \<and> (c' - 0) mod 2 = 0
                    then tget v (bidx [L, c] [p, (c' - 0) div 2])
                    else tget t idx)
      = (\<lambda>idx. if even (idx ! 1) then tget v (bidx [L, c] [idx ! 0, idx ! 1 div 2]) else tget t idx)"
    by (rule ext) (simp add: Let_def even_iff_mod_2_eq_zero)
  then show ?thesis
    unfolding setitem_cols_def assms(1,2) using e by (simp add: Let_def)
qed

lemma setitem_odd:
  assumes "shape t = [L, d]" "shape v = [L, c]" "c = d div 2 \<or> c = 1"
  shows "setitem_cols 1 2 t v = Inr (build [L, d] (\<lambda>idx.
           if odd (idx ! 1) then tget v (bidx [L, c] [idx ! 0, idx ! 1 div 2]) else tget t idx))"
proof -
  have "(d - 1 + 2 - 1) div 2 = d div 2" by presburger
  then have e: "expandable [L, c] [L, (d - 1 + 2 - 1) div 2]"
    using assms(3) by (auto simp: expandable2)
  have "(let p = idx ! 0; c' = idx ! 1
                 in if 1 \<le> c' \<and> (c' - 1) mod 2 = 0
                    then tget v (bidx [L, c] [p, (c' - 1) div 2])
                    else tget t idx)
      = (if odd (idx ! 1) then tget v (bidx [L, c] [idx ! 0, idx ! 1 div 2]) else tget t idx)" for idx
  proof (cases "odd (idx ! 1)")
    case True
    then have "1 \<le> idx ! 1 \<and> (idx ! 1 - 1) mod 2 = 0" "(idx ! 1 - 1) div 2 = idx ! 1 div 2"
      by presburger+
    with True show ?thesis unfolding Let_def by (simp only: if_True simp_thms)
  next
    case False
    then have nc: "\<not> (1 \<le> idx ! 1 \<and> (idx ! 1 - 1) mod 2 = 0)" by presburger
    show ?thesis unfolding Let_def if_not_P[OF nc] if_not_P[OF False] ..
  qed
  then have "(\<lambda>idx. let p = idx ! 0; c' = idx ! 1
                 in if 1 \<le> c' \<and> (c' - 1) mod 2 = 0
                    then tget v (bidx [L, c] [p, (c' - 1) div 2])
                    else tget t idx)
      = (\<lambda>idx. if odd (idx ! 1) then tget v (bidx [L, c] [idx ! 0, idx ! 1 div 2]) else tget t idx)"
    by (rule ext)
  then show ?thesis
    unfolding setitem_cols_def assms(1,2) Let_def[of "[L, d] ! 0"] Let_def[of "[L, d] ! 1"] Let_def[of "[_, _]"]
    using e by simp
qed

lemma setitem_odd_err:
  assumes "shape t = [L, d]" "shape v = [L, c]" "c \<noteq> d div 2" "c \<noteq> 1"
  shows "setitem_cols 1 2 t v = Inl RuntimeError"
proof -
  have "(d - 1 + 2 - 1) div 2 = d div 2" by presburger
  then have e: "\<not> expandable [L, c] [L, (d - 1 + 2 - 1) div 2]"
    using assms(3,4) by (auto simp: expandable2)
  then show ?thesis
    unfolding setitem_cols_def assms(1,2) Let_def[of "[L, d] ! 0"] Let_def[of "[L, d] ! 1"] Let_def[of "[_, _]"]
    by simp
qed

lemma zeros_ok: "0 \<le> r \<Longrightarrow> 0 \<le> c \<Longrightarrow> zeros r c = Inr (build [nat r, nat c] (\<lambda>_. 0))"
  by (simp add: zeros_def)

lemma arange_ok: "0 \<le> n \<Longrightarrow> arange n s = Inr (build [nat ((n + s - 1) div s)] (\<lambda>idx. real_of_int (int (idx ! 0) * s)))"
  by (simp add: arange_def)

lemma pe_table_prefix:
  assumes L: "0 \<le> L" and d: "0 < d"
  shows "pe_table L d =
     bindE (setitem_cols 0 2 (build [nat L, nat d] (\<lambda>_. 0))
              (tmap sin (build [nat L, nat ((d + 2 - 1) div 2)] (\<lambda>idx. angle d (idx ! 0) (idx ! 1))))) (\<lambda>pe.
     setitem_cols 1 2 pe (tmap cos (build [nat L, nat ((d + 2 - 1) div 2)] (\<lambda>idx. angle d (idx ! 0) (idx ! 1)))))"
proof -
  have d0: "0 \<le> d" using d by simp
  have L1: "nat ((L + 1 - 1) div 1) = nat L" by simp
  have pd: "py_div (- ln 10000) d = Inr (- ln 10000 / real_of_int d)"
    using d by (simp add: py_div_def)
  have b: "bindE (Inr x) f = f x" for x :: 'a and f :: "'a \<Rightarrow> error + 'b"
    by (simp add: bindE_def)
  show ?thesis
    unfolding pe_table_def zeros_ok[OF L d0] arange_ok[OF L] arange_ok[OF d0] pd b Let_def L1 pd_value ..
qed

lemma half_even: "even n \<or> n = 1 \<Longrightarrow> (n + 1) div 2 = n div 2 \<or> (n + 1) div 2 = (1::nat)"
  by presburger

lemma half_odd: "3 \<le> n \<Longrightarrow> odd n \<Longrightarrow> (n + 1) div 2 \<noteq> n div 2 \<and> (n + 1) div 2 \<noteq> (1::nat)"
  by presburger

lemma pe_table_ok:
  assumes L: "0 \<le> L" and d: "0 < d" and ev: "even d \<or> d = 1"
  shows "pe_table L d = Inr (build [nat L, nat d] (\<lambda>idx. pe_entry d (idx ! 0) (idx ! 1)))"
proof -
  define h where "h = nat ((d + 2 - 1) div 2)"
  define pd where "pd = build [nat L, h] (\<lambda>idx. angle d (idx ! 0) (idx ! 1))"
  define s where "s = build [nat L, nat d] (\<lambda>idx.
           if even (idx ! 1) then tget (tmap sin pd) (bidx [nat L, h] [idx ! 0, idx ! 1 div 2])
           else tget (build [nat L, nat d] (\<lambda>_. 0)) idx)"
  have h1: "h = (nat d + 1) div 2" using d unfolding h_def by (simp add: nat_div_distrib nat_add_distrib)
  have "even (nat d) \<or> nat d = 1" using d ev by (auto simp: even_nat_iff)
  then have h2: "h = nat d div 2 \<or> h = 1" unfolding h1 by (rule half_even)
  have s1: "setitem_cols 0 2 (build [nat L, nat d] (\<lambda>_. 0)) (tmap sin pd) = Inr s"
    unfolding s_def by (rule setitem_even) (simp_all add: pd_def h1)
  have s2: "setitem_cols 1 2 s (tmap cos pd) = Inr (build [nat L, nat d] (\<lambda>idx.
           if odd (idx ! 1) then tget (tmap cos pd) (bidx [nat L, h] [idx ! 0, idx ! 1 div 2]) else tget s idx))"
    by (rule setitem_odd) (use h2 in \<open>simp_all add: pd_def s_def\<close>)
  have fin: "build [nat L, nat d] (\<lambda>idx.
           if odd (idx ! 1) then tget (tmap cos pd) (bidx [nat L, h] [idx ! 0, idx ! 1 div 2]) else tget s idx)
         = build [nat L, nat d] (\<lambda>idx. pe_entry d (idx ! 0) (idx ! 1))"
  proof (rule build_cong)
    fix idx assume v: "valid_index [nat L, nat d] idx"
    then obtain p c where idx: "idx = [p, c]" and p: "p < nat L" and c: "c < nat d"
      by (rule valid_index2E)
    have ch: "c div 2 < h" using c unfolding h1 by linarith
    have b: "bidx [nat L, h] [p, c div 2] = [p, c div 2]" using p ch by (rule bidx2_same)
    have vpd: "valid_index [nat L, h] [p, c div 2]" using p ch by simp
    have gs: "tget (tmap sin pd) [p, c div 2] = sin (angle d p (c div 2))"
      unfolding pd_def tmap_build tget_build[OF vpd] by simp
    have gc: "tget (tmap cos pd) [p, c div 2] = cos (angle d p (c div 2))"
      unfolding pd_def tmap_build tget_build[OF vpd] by simp
    have vs: "valid_index [nat L, nat d] [p, c]" using p c by simp
    have ts: "even c \<Longrightarrow> tget s [p, c] = sin (angle d p (c div 2))"
      unfolding s_def tget_build[OF vs] using b gs by simp
    show "(if odd (idx ! 1) then tget (tmap cos pd) (bidx [nat L, h] [idx ! 0, idx ! 1 div 2]) else tget s idx)
        = pe_entry d (idx ! 0) (idx ! 1)"
      unfolding idx using ts b gc by (simp add: pe_entry_def)
  qed
  show ?thesis
    unfolding pe_table_prefix[OF L d] h_def[symmetric] pd_def[symmetric] s1 bindE_def sum.case s2 fin ..
qed

lemma pe_table_odd_err:
  assumes odd: "odd d" and d1: "d \<noteq> 1"
  shows "pe_table L d = Inl RuntimeError"
proof (cases "0 \<le> L \<and> 0 < d")
  case False
  then have "zeros L d = Inl RuntimeError" using odd by (auto simp: zeros_def)
  then show ?thesis by (simp add: pe_table_def bindE_def)
next
  case True
  then have L: "0 \<le> L" and d: "0 < d" by auto
  define h where "h = nat ((d + 2 - 1) div 2)"
  define pd where "pd = build [nat L, h] (\<lambda>idx. angle d (idx ! 0) (idx ! 1))"
  define s where "s = build [nat L, nat d] (\<lambda>idx.
           if even (idx ! 1) then tget (tmap sin pd) (bidx [nat L, h] [idx ! 0, idx ! 1 div 2])
           else tget (build [nat L, nat d] (\<lambda>_. 0)) idx)"
  have h1: "h = (nat d + 1) div 2" using d unfolding h_def by (simp add: nat_div_distrib nat_add_distrib)
  have "3 \<le> d" using odd d1 d by presburger
  then have d3: "3 \<le> nat d" "odd (nat d)" using odd by (simp_all add: even_nat_iff)
  have h2: "h \<noteq> nat d div 2" "h \<noteq> 1" using half_odd[OF d3] unfolding h1 by simp_all
  have s1: "setitem_cols 0 2 (build [nat L, nat d] (\<lambda>_. 0)) (tmap sin pd) = Inr s"
    unfolding s_def by (rule setitem_even) (simp_all add: pd_def h1)
  have s2: "setitem_cols 1 2 s (tmap cos pd) = Inl RuntimeError"
    by (rule setitem_odd_err[where c = h]) (use h2 in \<open>simp_all add: pd_def s_def\<close>)
  show ?thesis
    unfolding pe_table_prefix[OF L d] h_def[symmetric] pd_def[symmetric] s1 bindE_def sum.case s2 ..
qed

lemma length_unravel [simp]: "length (unravel sh k) = length sh"
  by (induction sh arbitrary: k) auto

lemma ravel_unravel: "k < prod_list sh \<Longrightarrow> ravel sh (unravel sh k) = k"
proof (induction sh arbitrary: k)
  case (Cons n ns)
  have pos: "0 < prod_list ns" using Cons.prems by (cases "prod_list ns") auto
  then have "k mod prod_list ns < prod_list ns" by simp
  then show ?case using Cons.IH by simp
qed simp

lemma sum_strides:
  "length idx = length sh \<Longrightarrow> sum_list (map2 (*) idx (contiguous_strides sh)) = ravel sh idx"
proof (induction sh arbitrary: idx)
  case (Cons n ns)
  then show ?case by (cases idx) auto
qed simp

lemma tensor_eqI: "shape a = shape b \<Longrightarrow> elems a = elems b \<Longrightarrow> a = (b :: 'a tensor)"
  by simp

lemma build_tget: "wf_tensor t \<Longrightarrow> build (shape t) (tget t) = t"
proof (rule tensor_eqI)
  assume wf: "wf_tensor t"
  have "map (\<lambda>k. elems t ! ravel (shape t) (unravel (shape t) k)) [0..<prod_list (shape t)]
      = map (\<lambda>k. elems t ! k) [0..<prod_list (shape t)]"
    by (rule map_cong) (simp_all add: ravel_unravel)
  also have "\<dots> = elems t" using wf unfolding wf_tensor_def by (metis map_nth)
  finally show "elems (build (shape t) (tget t)) = elems t"
    by (simp add: build_def tget_def)
qed simp

lemma deref_fresh:
  assumes wf: "wf_tensor t"
  shows "deref (h @ [elems t]) \<lparr>base = length h, offset = 0, vshape = shape t,
            strides = contiguous_strides (shape t)\<rparr> = t"
proof -
  have "build (shape t) (\<lambda>idx. elems t ! (0 + sum_list (map2 (*) idx (contiguous_strides (shape t)))))
      = build (shape t) (tget t)"
    by (rule build_cong) (simp add: sum_strides valid_index_length tget_def)
  then show ?thesis
    by (simp add: deref_def address_def build_tget[OF wf])
qed

lemma setitem_cols_shape:
  "setitem_cols a b t v = Inr r \<Longrightarrow> shape r = shape t \<and> wf_tensor r"
  by (auto simp: setitem_cols_def Let_def split: if_splits)

lemma zeros_shape: "zeros r c = Inr z \<Longrightarrow> shape z = [nat r, nat c]"
  by (auto simp: zeros_def split: if_splits)

lemma bindE_Inr: "bindE m f = Inr r \<Longrightarrow> \<exists>x. m = Inr x \<and> f x = Inr r"
  by (cases m) (auto simp: bindE_def)

lemma pe_table_shape:
  assumes "pe_table L d = Inr t"
  shows "shape t = [nat L, nat d] \<and> wf_tensor t"
proof -
  from assms obtain z s pd' where z: "zeros L d = Inr z"
    and s: "setitem_cols 0 2 z s = Inr pd'" "\<exists>v. setitem_cols 1 2 pd' v = Inr t"
    unfolding pe_table_def Let_def
    by (auto dest!: bindE_Inr)
  then show ?thesis
    using zeros_shape[OF z] by (auto dest!: setitem_cols_shape)
qed

lemma init_Inr:
  assumes "SinusoidalPositionalEmbedding_init L d h = Inr (self, h')"
  shows "\<exists>t. pe_table L d = Inr t \<and> h' = h @ [elems t] \<and> deref h' (pe self) = t
           \<and> pe self = \<lparr>base = length h, offset = 0, vshape = [nat L, nat d], strides = [nat d, 1]\<rparr>"
proof -
  from assms obtain t where t: "pe_table L d = Inr t"
    and r: "self = \<lparr>pe = \<lparr>base = length h, offset = 0, vshape = shape t,
                    strides = contiguous_strides (shape t)\<rparr>\<rparr>" "h' = h @ [elems t]"
    unfolding SinusoidalPositionalEmbedding_init_def by (auto dest!: bindE_Inr)
  have sh: "shape t = [nat L, nat d]" and wf: "wf_tensor t" using pe_table_shape[OF t] by auto
  have "deref h' (pe self) = t" unfolding r using deref_fresh[OF wf] by simp
  then show ?thesis using t r sh by simp
qed

lemma init_ok:
  assumes "0 \<le> L" "0 < d" "even d \<or> d = 1"
  shows "SinusoidalPositionalEmbedding_init L d h =
     Inr (\<lparr>pe = \<lparr>base = length h, offset = 0, vshape = [nat L, nat d], strides = [nat d, 1]\<rparr>\<rparr>,
          h @ [elems (build [nat L, nat d] (\<lambda>idx. pe_entry d (idx ! 0) (idx ! 1)))])"
  unfolding SinusoidalPositionalEmbedding_init_def pe_table_ok[OF assms] by (simp add: bindE_def)



section \<open>Properties of the positional embedding\<close>



lemma forward_ok:
  assumes "pe self = \<lparr>base = b, offset = 0, vshape = [L, d], strides = [d, 1]\<rparr>"
    and "2 \<le> length (shape x)"
  shows "forward self x h =
     Inr (\<lparr>base = b, offset = 0, vshape = [1, min (shape x ! 1) L, d],
            strides = [min (shape x ! 1) L * d, d, 1]\<rparr>, h)"
  using assms by (simp add: forward_def slice_rows_def unsqueeze0_def)

lemma tget_deref:
  "valid_index (vshape v) idx \<Longrightarrow> tget (deref h v) idx = (h ! base v) ! address v idx"
  by (simp add: deref_def tget_build)

lemma address3:
  "address \<lparr>base = b, offset = 0, vshape = sh, strides = [s, d, 1]\<rparr> [0, p, c] = p * d + c"
  by (simp add: address_def)

lemma address2:
  "address \<lparr>base = b, offset = 0, vshape = sh, strides = [d, 1]\<rparr> [p, c] = p * d + c"
  by (simp add: address_def)

text \<open>
  Claim C7. For a constructed module and an input whose sequence length
  \<open>x.shape[1]\<close> is at most \<open>max_seq_len\<close> (it cannot be negative), \<^verbatim>\<open>forward\<close> returns
  a tensor of shape \<open>(1, sequence_length, d_model)\<close> whose entry \<open>[0, p, c]\<close> is
  \<open>pe[p, c]\<close>: the first \<open>sequence_length\<close> rows of \<open>pe\<close> under a new leading axis of
  size 1. This covers the length 0, and \<open>max_seq_len = 100\<close>, \<open>d_model = 64\<close> with length 50
  gives the shape \<open>(1, 50, 64)\<close>.
\<close>

theorem forward_slice:
  assumes "SinusoidalPositionalEmbedding_init max_seq_len d_model h0 = Inr (self, h)"
    and "2 \<le> length (shape x)"
    and "shape x ! 1 \<le> nat max_seq_len"
  shows "\<exists>v. forward self x h = Inr (v, h)
      \<and> shape (deref h v) = [1, shape x ! 1, nat d_model]
      \<and> (\<forall>p < shape x ! 1. \<forall>c < nat d_model.
            tget (deref h v) [0, p, c] = tget (deref h (pe self)) [p, c])"
proof -
  let ?n = "shape x ! 1"
  let ?v = "\<lparr>base = length h0, offset = 0, vshape = [1, min ?n (nat max_seq_len), nat d_model],
            strides = [min ?n (nat max_seq_len) * nat d_model, nat d_model, 1]\<rparr>"
  from init_Inr[OF assms(1)] have
    p: "pe self = \<lparr>base = length h0, offset = 0, vshape = [nat max_seq_len, nat d_model],
                    strides = [nat d_model, 1]\<rparr>"
    by blast
  have f: "forward self x h = Inr (?v, h)" by (rule forward_ok[OF p assms(2)])
  have m: "min ?n (nat max_seq_len) = ?n" using assms(3) by simp
  have s: "shape (deref h ?v) = [1, ?n, nat d_model]" using m by (simp add: deref_def)
  have e: "tget (deref h ?v) [0, q, c] = tget (deref h (pe self)) [q, c]"
    if "q < ?n" "c < nat d_model" for q c
  proof -
    have "valid_index (vshape ?v) [0, q, c]" using that m by simp
    moreover have "valid_index (vshape (pe self)) [q, c]" using that assms(3) unfolding p by simp
    ultimately show ?thesis
      unfolding p by (simp only: tget_deref address3 address2 tview.simps)
  qed
  show ?thesis unfolding f using s e by blast
qed

text \<open>
  The instance of C7 with \<open>max_seq_len = 100\<close>, \<open>d_model = 64\<close> and an input of shape
  \<open>(1, 50)\<close>, the position indices of a sequence of length 50.
\<close>

theorem forward_slice_witness:
  "\<exists>self h v. SinusoidalPositionalEmbedding_init 100 64 [] = Inr (self, h)
      \<and> forward self (build [1, 50] (\<lambda>idx. int (idx ! 1))) h = Inr (v, h)
      \<and> shape (deref h v) = [1, 50, 64]"
proof -
  let ?x = "build [1, 50] (\<lambda>idx. int (idx ! 1))"
  obtain self h where i: "SinusoidalPositionalEmbedding_init 100 64 [] = Inr (self, h)"
    using init_ok[of 100 64 "[]"] by simp
  have a: "2 \<le> length (shape ?x)" "shape ?x ! 1 \<le> nat 100" by simp_all
  from forward_slice[OF i a] show ?thesis using i by auto
qed

text \<open>
  Claim C6. The claim asks \<^verbatim>\<open>forward\<close> to fail when the sequence length exceeds
  \<open>max_seq_len\<close>. On a table with \<open>max_seq_len = 2\<close>, \<open>d_model = 2\<close> and an input of
  sequence length 3, \<^verbatim>\<open>forward\<close> raises nothing and returns a tensor of shape
  \<open>(1, 2, 2)\<close>, not the \<open>(1, seq_len, d_model)\<close> that its own comment gives.
\<close>

theorem forward_out_of_range_no_error:
  "SinusoidalPositionalEmbedding_init 2 2 [] =
     Inr (\<lparr>pe = \<lparr>base = 0, offset = 0, vshape = [2, 2], strides = [2, 1]\<rparr>\<rparr>,
          [[0, 1, sin 1, cos 1]])
   \<and> forward \<lparr>pe = \<lparr>base = 0, offset = 0, vshape = [2, 2], strides = [2, 1]\<rparr>\<rparr>
        (build [1, 3] (\<lambda>idx. int (idx ! 1))) [[0, 1, sin 1, cos 1]] =
     Inr (\<lparr>base = 0, offset = 0, vshape = [1, 2, 2], strides = [4, 2, 1]\<rparr>,
          [[0, 1, sin 1, cos 1]])"
  by (simp add: init_ok build_def pe_entry_def angle_def upt_conv_Cons
      forward_def slice_rows_def unsqueeze0_def)

text \<open>
  In general \<^verbatim>\<open>forward\<close> never raises on an input of at least two dimensions: it
  returns the first \<open>min (x.shape[1]) max_seq_len\<close> rows.
\<close>

lemma forward_clamps:
  assumes "SinusoidalPositionalEmbedding_init max_seq_len d_model h0 = Inr (self, h)"
    and "2 \<le> length (shape x)"
  shows "\<exists>v. forward self x h = Inr (v, h)
      \<and> vshape v = [1, min (shape x ! 1) (nat max_seq_len), nat d_model]"
proof -
  from init_Inr[OF assms(1)] have
    p: "pe self = \<lparr>base = length h0, offset = 0, vshape = [nat max_seq_len, nat d_model],
                    strides = [nat d_model, 1]\<rparr>"
    by blast
  show ?thesis unfolding forward_ok[OF p assms(2)] by simp
qed

text \<open>
  Claim C10, as stated, fails at \<open>d_model = 1\<close>: the one computed column expands to the
  empty selection of odd columns, and construction succeeds with a table of shape
  \<open>(max_seq_len, 1)\<close> that holds \<open>sin p\<close>.
\<close>

theorem d_model_one_constructs:
  "SinusoidalPositionalEmbedding_init 2 1 [] =
     Inr (\<lparr>pe = \<lparr>base = 0, offset = 0, vshape = [2, 1], strides = [1, 1]\<rparr>\<rparr>, [[0, sin 1]])"
  by (simp add: init_ok build_def pe_entry_def angle_def upt_conv_Cons)

text \<open>
  Claim C10, amended. Constructing the module with an odd \<open>d_model\<close> other than 1 raises
  an error, for every \<open>max_seq_len\<close>.
\<close>

theorem odd_d_model_raises:
  assumes "odd d_model" "d_model \<noteq> 1"
  shows "SinusoidalPositionalEmbedding_init max_seq_len d_model h = Inl RuntimeError"
  unfolding SinusoidalPositionalEmbedding_init_def pe_table_odd_err[OF assms]
  by (simp add: bindE_def)

text \<open>The instance of amended C10 with \<open>d_model = 3\<close>.\<close>

theorem odd_d_model_raises_witness:
  "odd (3::int) \<and> (3::int) \<noteq> 1 \<and> SinusoidalPositionalEmbedding_init 2 3 [] = Inl RuntimeError"
  using odd_d_model_raises[of 3 2 "[]"] by simp

text \<open>
  Claim C9, as stated, fails: the tensor that \<^verbatim>\<open>forward\<close> returns is a view of the
  storage of \<open>pe\<close>. After the caller writes 5 at \<open>[0, 0, 0]\<close> of the returned tensor,
  \<open>pe[0, 0]\<close> is 5 where it was 0.
\<close>

theorem returned_view_aliases_pe:
  "SinusoidalPositionalEmbedding_init 2 2 [] =
     Inr (\<lparr>pe = \<lparr>base = 0, offset = 0, vshape = [2, 2], strides = [2, 1]\<rparr>\<rparr>,
          [[0, 1, sin 1, cos 1]])
   \<and> forward \<lparr>pe = \<lparr>base = 0, offset = 0, vshape = [2, 2], strides = [2, 1]\<rparr>\<rparr>
        (build [1, 1] (\<lambda>idx. int (idx ! 1))) [[0, 1, sin 1, cos 1]] =
     Inr (\<lparr>base = 0, offset = 0, vshape = [1, 1, 2], strides = [2, 2, 1]\<rparr>,
          [[0, 1, sin 1, cos 1]])
   \<and> setitem_view \<lparr>base = 0, offset = 0, vshape = [1, 1, 2], strides = [2, 2, 1]\<rparr> [0, 0, 0] 5
        [[0, 1, sin 1, cos 1]] = Inr [[5, 1, sin 1, cos 1]]
   \<and> elems (deref [[0, 1, sin 1, cos 1]]
        \<lparr>base = 0, offset = 0, vshape = [2, 2], strides = [2, 1]\<rparr>) = [0, 1, sin 1, cos 1]
   \<and> elems (deref [[5, 1, sin 1, cos 1]]
        \<lparr>base = 0, offset = 0, vshape = [2, 2], strides = [2, 1]\<rparr>) = [5, 1, sin 1, cos 1]"
  by (simp add: init_ok build_def pe_entry_def angle_def upt_conv_Cons
      forward_def slice_rows_def unsqueeze0_def setitem_view_def address_def deref_def)

text \<open>
  Claim C9, amended. \<^verbatim>\<open>forward\<close> leaves the heap, and so \<open>pe\<close>, as it was: every
  later query observes the same table as long as nobody writes through a returned
  tensor. The returned tensor is a view of the storage of \<open>pe\<close>: an in-place write by
  the caller at \<open>[0, p, c]\<close> of it sets \<open>pe[p, c]\<close>.
\<close>

theorem pe_frame:
  assumes "SinusoidalPositionalEmbedding_init max_seq_len d_model h0 = Inr (self, h)"
    and "forward self x h = Inr (v, h')"
  shows "h' = h \<and> base v = base (pe self)
      \<and> (\<forall>p c a. p < min (shape x ! 1) (nat max_seq_len) \<and> c < nat d_model \<longrightarrow>
            (\<exists>h''. setitem_view v [0, p, c] a h' = Inr h''
               \<and> tget (deref h'' (pe self)) [p, c] = a))"
proof -
  let ?n = "shape x ! 1"
  from init_Inr[OF assms(1)] obtain t where
    p: "pe self = \<lparr>base = length h0, offset = 0, vshape = [nat max_seq_len, nat d_model],
                    strides = [nat d_model, 1]\<rparr>"
    and t: "pe_table max_seq_len d_model = Inr t" "h = h0 @ [elems t]"
    by blast
  have wf: "length (elems t) = nat max_seq_len * nat d_model"
    using pe_table_shape[OF t(1)] by (simp add: wf_tensor_def)
  have r: "2 \<le> length (shape x)" using assms(2) by (auto simp: forward_def split: if_splits)
  have v: "v = \<lparr>base = length h0, offset = 0, vshape = [1, min ?n (nat max_seq_len), nat d_model],
            strides = [min ?n (nat max_seq_len) * nat d_model, nat d_model, 1]\<rparr>" and hh: "h' = h"
    using assms(2) unfolding forward_ok[OF p r] by simp_all
  have w: "\<exists>h''. setitem_view v [0, q, c] a h' = Inr h'' \<and> tget (deref h'' (pe self)) [q, c] = a"
    if "q < min ?n (nat max_seq_len)" "c < nat d_model" for q c a
  proof -
    have q: "q < nat max_seq_len" using that(1) by simp
    have "q * nat d_model + c < q * nat d_model + nat d_model" using that(2) by simp
    also have "\<dots> = Suc q * nat d_model" by simp
    also have "\<dots> \<le> nat max_seq_len * nat d_model" using q by (intro mult_le_mono1) simp
    finally have lt: "q * nat d_model + c < length (elems t)" using wf by simp
    have s: "setitem_view v [0, q, c] a h' = Inr (h0 @ [(elems t)[q * nat d_model + c := a]])"
      unfolding v hh t(2) using that by (simp add: setitem_view_def address_def)
    have "valid_index (vshape (pe self)) [q, c]" using q that(2) unfolding p by simp
    then have "tget (deref (h0 @ [(elems t)[q * nat d_model + c := a]]) (pe self)) [q, c] = a"
      unfolding p using lt by (simp only: tget_deref address2 tview.simps) simp
    then show ?thesis using s by simp
  qed
  show ?thesis using hh v p w by simp
qed

text \<open>The instance of amended C9 with \<open>max_seq_len = 2\<close>, \<open>d_model = 2\<close>.\<close>

theorem pe_frame_witness:
  "\<exists>self h v. SinusoidalPositionalEmbedding_init 2 2 [] = Inr (self, h)
     \<and> forward self (build [1, 1] (\<lambda>idx. int (idx ! 1))) h = Inr (v, h)
     \<and> base v = base (pe self)
     \<and> (\<exists>h''. setitem_view v [0, 0, 0] 5 h = Inr h'' \<and> tget (deref h'' (pe self)) [0, 0] = 5)"
proof -
  let ?x = "build [1, 1] (\<lambda>idx. int (idx ! 1))"
  obtain self h where i: "SinusoidalPositionalEmbedding_init 2 2 [] = Inr (self, h)"
    using init_ok[of 2 2 "[]"] by simp
  obtain v h' where f: "forward self ?x h = Inr (v, h')"
    by (simp add: forward_def)
  from pe_frame[OF i f] have
    a: "h' = h" "base v = base (pe self)"
    and b: "\<forall>p c a. p < min (shape ?x ! 1) (nat 2) \<and> c < nat 2 \<longrightarrow>
            (\<exists>h''. setitem_view v [0, p, c] a h' = Inr h''
               \<and> tget (deref h'' (pe self)) [p, c] = a)"
    by blast+
  have "0 < min (shape ?x ! 1) (nat 2) \<and> (0::nat) < nat 2" by simp
  with b have "\<exists>h''. setitem_view v [0, 0, 0] 5 h' = Inr h''
               \<and> tget (deref h'' (pe self)) [0, 0] = 5" by blast
  then show ?thesis using i f a by auto
qed

section \<open>Lemmas on broadcasting and the attention function\<close>

lemma bindE_Inr_simp: "bindE (Inr x) f = f x" by (simp add: bindE_def)
lemma bindE_Inl_simp: "bindE (Inl e) f = Inl e" by (simp add: bindE_def)

lemma map2_valid_id:
  "list_all2 (<) js ns \<Longrightarrow> map2 (\<lambda>n i. if n = 1 then 0 else i) ns js = (js :: nat list)"
  by (induction js ns rule: list_all2_induct) auto

lemma bidx_valid_id: "valid_index sh idx \<Longrightarrow> bidx sh idx = idx"
  unfolding valid_index_def bidx_def
  using map2_valid_id[of "rev idx" "rev sh"] by (simp add: list_all2_rev)

lemma bc_rev_valid:
  "bc_rev xs ys = Some zs \<Longrightarrow> list_all2 (<) js zs \<Longrightarrow>
     list_all2 (<) (map2 (\<lambda>n i. if n = 1 then 0 else i) xs js) xs
   \<and> list_all2 (<) (map2 (\<lambda>n i. if n = 1 then 0 else i) ys js) ys"
proof (induction xs ys arbitrary: zs js rule: bc_rev.induct)
  case (1 ys)
  then show ?case using map2_valid_id[of js ys] by simp
next
  case (2 x xs)
  then show ?case using map2_valid_id[of js "x # xs"] by simp
next
  case (3 x xs y ys)
  from "3.prems"(1) obtain z zs' where z: "zs = z # zs'" "bc_rev xs ys = Some zs'"
    and zz: "z = x \<or> z = y" "x = z \<or> x = 1" "y = z \<or> y = 1"
    by (auto split: if_splits)
  from "3.prems"(2) z(1) obtain i js' where j: "js = i # js'" "i < z" "list_all2 (<) js' zs'"
    by (cases js) auto
  have ih: "list_all2 (<) (map2 (\<lambda>n i. if n = 1 then 0 else i) xs js') xs
   \<and> list_all2 (<) (map2 (\<lambda>n i. if n = 1 then 0 else i) ys js') ys"
  proof (cases "x = y \<or> y = 1")
    case True
    then show ?thesis using "3.IH"(1)[OF True z(2) j(3)] by simp
  next
    case False
    then have x1: "x = 1" using zz by auto
    show ?thesis using "3.IH"(2)[OF False x1 z(2) j(3)] by simp
  qed
  show ?case unfolding j(1) using ih j(2) zz by auto
qed

lemma bidx_valid:
  assumes "broadcast_shapes a b = Some s" "valid_index s idx"
  shows "valid_index a (bidx a idx)" "valid_index b (bidx b idx)"
proof -
  from assms(1) obtain zs where zs: "bc_rev (rev a) (rev b) = Some zs" "s = rev zs"
    by (auto simp: broadcast_shapes_def)
  have "list_all2 (<) (rev idx) zs" using assms(2) unfolding valid_index_def zs(2)
    by (metis list_all2_rev rev_rev_ident)
  from bc_rev_valid[OF zs(1) this]
  show "valid_index a (bidx a idx)" "valid_index b (bidx b idx)"
    unfolding valid_index_def bidx_def by (metis list_all2_rev rev_rev_ident)+
qed

lemma valid_index_append:
  "length bs = length b \<Longrightarrow> valid_index (b @ sh) (bs @ idx) = (valid_index b bs \<and> valid_index sh idx)"
  unfolding valid_index_def by (simp add: list_all2_append)

lemma valid_index_snoc2:
  "valid_index (b @ [m, n]) (bs @ [i, j]) = (valid_index b bs \<and> i < m \<and> j < n)"
proof (cases "length bs = length b")
  case True
  then show ?thesis by (simp add: valid_index_append)
next
  case False
  then show ?thesis by (auto simp: valid_index_def dest: list_all2_lengthD)
qed

lemma valid_index_snoc2E:
  assumes "valid_index (b @ [m, n]) idx"
  obtains bs i j where "idx = bs @ [i, j]" "valid_index b bs" "i < m" "j < n"
proof -
  have l: "length idx = length b + 2" using valid_index_length[OF assms] by simp
  define bs where "bs = take (length b) idx"
  have "length (drop (length b) idx) = 2" using l by simp
  then obtain i j where d: "drop (length b) idx = [i, j]"
    by (metis (no_types, opaque_lifting) One_nat_def Suc_1 length_0_conv length_Suc_conv)
  have "idx = bs @ [i, j]" unfolding bs_def d[symmetric] by simp
  moreover from assms this have "valid_index b bs \<and> i < m \<and> j < n"
    by (simp add: valid_index_snoc2)
  ultimately show ?thesis using that by blast
qed

lemma bs_nil_r [simp]: "broadcast_shapes a [] = Some a"
  by (cases "rev a") (auto simp: broadcast_shapes_def)

lemma bs_nil_l [simp]: "broadcast_shapes [] b = Some b"
  by (simp add: broadcast_shapes_def)

lemma bc_rev_same: "bc_rev xs xs = Some xs"
  by (induction xs) auto

lemma bs_same [simp]: "broadcast_shapes a a = Some a"
  by (simp add: broadcast_shapes_def bc_rev_same)

lemma bidx_nil [simp]: "bidx [] idx = []"
  by (simp add: bidx_def)

lemma shape_snoc2 [simp]:
  "length (b @ [m, n]) - 2 = length b"
  "take (length b) (b @ [m, n]) = b"
  "(b @ [m, n]) ! length b = m"
  "(b @ [m, n]) ! Suc (length b) = n"
  "(b @ [m, n]) ! (length (b @ [m, n]) - 1) = n"
  "(b @ [m, n]) ! (length (b @ [m, n]) - 2) = m"
  "last (b @ [m, n]) = n"
  by (simp_all add: nth_append)

lemma idx_snoc2:
  "length bs = length b \<Longrightarrow> take (length b) (bs @ [i, j]) = bs"
  "length bs = length b \<Longrightarrow> (bs @ [i, j]) ! length b = i"
  "length bs = length b \<Longrightarrow> (bs @ [i, j]) ! Suc (length b) = j"
  by (simp_all add: nth_append)

lemma batch_snoc2 [simp]: "shape t = b @ [m, n] \<Longrightarrow> batch t = b"
  by (simp add: batch_def)

lemma seq_len_snoc2 [simp]: "shape t = b @ [m, n] \<Longrightarrow> seq_len t = m"
  by (simp add: seq_len_def)

lemma transpose_last2_build:
  assumes "shape t = b @ [m, n]"
  shows "transpose_last2 t =
     Inr (build (b @ [n, m]) (\<lambda>idx. tget t (take (length b) idx @ [idx ! Suc (length b), idx ! length b])))"
proof -
  have "\<not> length (b @ [m, n]) < 2" by simp
  moreover have "length (b @ [m, n]) - 1 = Suc (length b)" by simp
  ultimately show ?thesis
    unfolding transpose_last2_def assms Let_def by (simp only: if_False shape_snoc2)
qed

lemma bmm_cases:
  assumes "shape a = ba @ [m, n]" "shape b = bb @ [n', p]"
  shows "bmm a b =
     (if n \<noteq> n' then Inl RuntimeError
      else case broadcast_shapes ba bb of
             None \<Rightarrow> Inl RuntimeError
           | Some bsh \<Rightarrow>
               Inr (build (bsh @ [m, p]) (\<lambda>idx.
                    fsum (map (\<lambda>l. fmul (tget a (bidx ba (take (length bsh) idx) @ [idx ! length bsh, l]))
                                           (tget b (bidx bb (take (length bsh) idx) @ [l, idx ! Suc (length bsh)]))) [0..<n]))))"
  unfolding bmm_def assms Let_def by (simp only: shape_snoc2)

lemma matmul_bmm:
  assumes "2 \<le> length (shape a)" "2 \<le> length (shape b)"
  shows "matmul a b = bmm a b"
proof -
  have "bindE (bmm a b) Inr = bmm a b" by (cases "bmm a b") (simp_all add: bindE_def)
  moreover have "(\<lambda>r. Inr r) = (Inr :: fval tensor \<Rightarrow> error + fval tensor)" by (rule ext) simp
  moreover have "shape a \<noteq> []" "shape b \<noteq> []" "length (shape a) \<noteq> 1" "length (shape b) \<noteq> 1"
    using assms by auto
  ultimately show ?thesis by (simp add: matmul_def Let_def)
qed

lemma tget_build_snoc2:
  assumes "valid_index b bs" "i < m" "j < n"
  shows "tget (build (b @ [m, n]) F) (bs @ [i, j]) = F (bs @ [i, j])"
  by (rule tget_build) (simp add: valid_index_snoc2 assms)

lemma expandable_bidx_valid:
  assumes "expandable sm sh" "valid_index sh idx"
  shows "valid_index sm (bidx sm idx)"
  using assms bidx_valid(1)[of sm sh sh idx] by (simp add: expandable_def)

lemma sdpa_char:
  assumes sq: "shape q = bq @ [Sq, Dk]" and sk: "shape k = bk @ [Sk, Dk]"
    and sv: "shape v = bv @ [Sk, Dv]"
    and b1: "broadcast_shapes bq bk = Some b1" and b2: "broadcast_shapes b1 bv = Some b2"
    and mk: "msk = None \<or> (\<exists>m. msk = Some m \<and> wf_tensor m \<and> expandable (shape m) (b1 @ [Sq, Sk]))"
  shows "\<exists>out w. scaled_dot_product_attention q k v msk = Inr (out, w)
      \<and> shape w = b1 @ [Sq, Sk] \<and> shape out = b2 @ [Sq, Dv]
      \<and> (\<forall>bs i j. valid_index b1 bs \<and> i < Sq \<and> j < Sk \<longrightarrow>
            tget w (bs @ [i, j]) = weight_at q k msk bs i j)
      \<and> (\<forall>bs i e. valid_index b2 bs \<and> i < Sq \<and> e < Dv \<longrightarrow>
            tget out (bs @ [i, e]) =
              fsum (map (\<lambda>j. fmul (tget w (bidx b1 bs @ [i, j])) (tget v (bidx bv bs @ [j, e])))
                    [0..<Sk]))"
proof -
  let ?sh = "b1 @ [Sq, Sk]"
  define c where "c = Fin (sqrt (real Dk))"
  \<comment> \<open>the transposed keys\<close>
  define kT where "kT = build (bk @ [Dk, Sk])
      (\<lambda>idx. tget k (take (length bk) idx @ [idx ! Suc (length bk), idx ! length bk]))"
  have t1: "transpose_last2 k = Inr kT"
    unfolding kT_def by (rule transpose_last2_build[OF sk])
  have skT: "shape kT = bk @ [Dk, Sk]" by (simp add: kT_def)
  have gkT: "tget kT (bs @ [l, j]) = tget k (bs @ [j, l])"
    if "valid_index bk bs" "l < Dk" "j < Sk" for bs l j
    unfolding kT_def tget_build_snoc2[OF that]
    using valid_index_length[OF that(1)] by (simp add: nth_append)
  \<comment> \<open>the raw scores\<close>
  define qk where "qk = build ?sh (\<lambda>idx.
      fsum (map (\<lambda>l. fmul (tget q (bidx bq (take (length b1) idx) @ [idx ! length b1, l]))
                          (tget kT (bidx bk (take (length b1) idx) @ [l, idx ! Suc (length b1)])))
            [0..<Dk]))"
  have rq: "2 \<le> length (shape q)" "2 \<le> length (shape kT)" "shape q \<noteq> []"
    unfolding sq skT by simp_all
  have t2: "matmul q kT = Inr qk"
    unfolding matmul_bmm[OF rq(1,2)] bmm_cases[OF sq skT] qk_def by (simp add: b1)
  have gqk: "tget qk (bs @ [i, j]) =
      fsum (map (\<lambda>l. fmul (tget q (bidx bq bs @ [i, l])) (tget k (bidx bk bs @ [j, l]))) [0..<Dk])"
    if v: "valid_index b1 bs" "i < Sq" "j < Sk" for bs i j
  proof -
    have l: "length bs = length b1" by (rule valid_index_length[OF v(1)])
    have vk: "valid_index bk (bidx bk bs)" by (rule bidx_valid(2)[OF b1 v(1)])
    have me: "map (\<lambda>l. fmul (tget q (bidx bq bs @ [i, l])) (tget kT (bidx bk bs @ [l, j]))) [0..<Dk]
        = map (\<lambda>l. fmul (tget q (bidx bq bs @ [i, l])) (tget k (bidx bk bs @ [j, l]))) [0..<Dk]"
      by (rule map_cong) (simp_all add: gkT[OF vk _ v(3)])
    show ?thesis
      unfolding qk_def tget_build_snoc2[OF v] idx_snoc2[OF l] me ..
  qed
  \<comment> \<open>the scaled scores\<close>
  define sc where "sc = build ?sh (\<lambda>idx.
      fdiv (tget qk (bidx ?sh idx)) (tget (build [] (\<lambda>_. c)) (bidx [] idx)))"
  have sqk: "shape qk = ?sh" by (simp add: qk_def)
  have t3: "tzip fdiv qk (build [] (\<lambda>_. Fin (sqrt (real (last (shape q)))))) = Inr sc"
    unfolding tzip_def sc_def c_def sq by (simp add: sqk)
  have gsc: "tget sc (bs @ [i, j]) = score_at q k bs i j"
    if v: "valid_index b1 bs" "i < Sq" "j < Sk" for bs i j
  proof -
    have vi: "valid_index ?sh (bs @ [i, j])" using v by (simp add: valid_index_snoc2)
    have "tget (build [] (\<lambda>_. c)) [] = c" by (simp add: tget_build)
    then show ?thesis
      unfolding sc_def tget_build[OF vi] bidx_valid_id[OF vi] gqk[OF v] score_at_def
      by (simp add: sq sk c_def)
  qed
  \<comment> \<open>the masked scores\<close>
  obtain ms where t4: "(case msk of None \<Rightarrow> Inr sc
                  | Some m \<Rightarrow> masked_fill sc (tmap (\<lambda>x. x = Fin 0) m) NInf) = Inr ms"
    and sms: "shape ms = ?sh"
    and gms: "\<And>bs i j. valid_index b1 bs \<Longrightarrow> i < Sq \<Longrightarrow> j < Sk \<Longrightarrow>
                tget ms (bs @ [i, j]) = mscore_at q k msk bs i j"
  proof (cases msk)
    case None
    have "shape sc = ?sh" by (simp add: sc_def)
    moreover have "tget sc (bs @ [i, j]) = mscore_at q k msk bs i j"
      if "valid_index b1 bs" "i < Sq" "j < Sk" for bs i j
      using gsc[OF that] by (simp add: mscore_at_def masked_at_def None)
    ultimately show ?thesis using that[of sc] None by simp
  next
    case (Some m)
    with mk have wf: "wf_tensor m" and ex: "expandable (shape m) ?sh" by auto
    define ms where "ms = build ?sh (\<lambda>idx.
        if tget (tmap (\<lambda>x. x = Fin 0) m) (bidx (shape (tmap (\<lambda>x. x = Fin 0) m)) idx) then NInf
        else tget sc (bidx (shape sc) idx))"
    have "broadcast_shapes (shape m) ?sh = Some ?sh" using ex by (simp add: expandable_def)
    then have a: "masked_fill sc (tmap (\<lambda>x. x = Fin 0) m) NInf = Inr ms"
      unfolding masked_fill_def ms_def by (simp add: sc_def)
    have g: "tget ms (bs @ [i, j]) = mscore_at q k msk bs i j"
      if v: "valid_index b1 bs" "i < Sq" "j < Sk" for bs i j
    proof -
      have vi: "valid_index ?sh (bs @ [i, j])" using v by (simp add: valid_index_snoc2)
      have vm: "valid_index (shape m) (bidx (shape m) (bs @ [i, j]))"
        by (rule expandable_bidx_valid[OF ex vi])
      have ssc: "shape sc = ?sh" by (simp add: sc_def)
      show ?thesis
        unfolding ms_def tget_build[OF vi] shape_tmap tget_tmap[OF wf vm] ssc bidx_valid_id[OF vi]
          gsc[OF v]
        by (simp add: mscore_at_def masked_at_def Some)
    qed
    have "shape ms = ?sh" by (simp add: ms_def)
    then show ?thesis using that[of ms] a g Some by simp
  qed
  \<comment> \<open>the weights\<close>
  define w where "w = softmax ms"
  have ne: "shape ms \<noteq> []" unfolding sms by simp
  have wb: "w = build ?sh (\<lambda>idx. fdiv (fexp (tget ms idx))
                  (fsum (map (\<lambda>j. fexp (tget ms (butlast idx @ [j]))) [0..<Sk])))"
    unfolding w_def softmax_def using ne by (simp add: sms)
  have sw: "shape w = ?sh" unfolding wb by simp
  have gw: "tget w (bs @ [i, j]) = weight_at q k msk bs i j"
    if v: "valid_index b1 bs" "i < Sq" "j < Sk" for bs i j
  proof -
    have vi: "valid_index ?sh (bs @ [i, j])" using v by (simp add: valid_index_snoc2)
    have bl: "butlast (bs @ [i, j]) @ [j'] = bs @ [i, j']" for j'
      by (simp add: butlast_append)
    have me: "map (\<lambda>j'. fexp (tget ms (bs @ [i, j']))) [0..<Sk]
        = map (\<lambda>j'. fexp (mscore_at q k msk bs i j')) [0..<Sk]"
      by (rule map_cong) (simp_all add: gms[OF v(1,2)])
    have sl: "seq_len k = Sk" by (simp add: sk)
    show ?thesis
      unfolding wb tget_build[OF vi] bl gms[OF v] weight_at_def sl me ..
  qed
  \<comment> \<open>the output\<close>
  define out where "out = build (b2 @ [Sq, Dv]) (\<lambda>idx.
      fsum (map (\<lambda>l. fmul (tget w (bidx b1 (take (length b2) idx) @ [idx ! length b2, l]))
                          (tget v (bidx bv (take (length b2) idx) @ [l, idx ! Suc (length b2)])))
            [0..<Sk]))"
  have rw: "2 \<le> length (shape w)" "2 \<le> length (shape v)" unfolding sw sv by simp_all
  have t5: "matmul w v = Inr out"
    unfolding matmul_bmm[OF rw] bmm_cases[OF sw sv] out_def by (simp add: b2)
  have gout: "tget out (bs @ [i, e]) =
      fsum (map (\<lambda>j. fmul (tget w (bidx b1 bs @ [i, j])) (tget v (bidx bv bs @ [j, e]))) [0..<Sk])"
    if v: "valid_index b2 bs" "i < Sq" "e < Dv" for bs i e
  proof -
    have l: "length bs = length b2" by (rule valid_index_length[OF v(1)])
    show ?thesis unfolding out_def tget_build_snoc2[OF v] idx_snoc2[OF l] ..
  qed
  have "scaled_dot_product_attention q k v msk = Inr (out, w)"
    unfolding scaled_dot_product_attention_def if_not_P[OF rq(3)] Let_def
      t1 bindE_Inr_simp t2 t3 t4 w_def[symmetric] t5 ..
  moreover have "shape out = b2 @ [Sq, Dv]" by (simp add: out_def)
  ultimately show ?thesis using sw gw gout by blast
qed













lemma masked_at_None [simp]: "\<not> masked_at None idx"
  by (simp add: masked_at_def)

lemmas eval_defs = scaled_dot_product_attention_def transpose_last2_def matmul_def bmm_def
  tzip_def masked_fill_def softmax_def build_def tget_def tmap_def bidx_def broadcast_shapes_def
  bindE_def fsum_def Let_def upt_conv_Cons



subsection \<open>Degenerate sizes\<close>

text \<open>
  With \<open>d_k = 0\<close> every raw score is an empty sum, 0, and is divided by \<open>sqrt 0\<close>: the
  weights are NaN. With no key at all the rows of the weights are empty and the output
  is 0. The properties of the weights below are stated for \<open>d_k > 0\<close> and for rows with
  at least one unmasked key.
\<close>

lemma zero_key_dimension_nan:
  "scaled_dot_product_attention \<lparr>shape = [1, 0], elems = []\<rparr> \<lparr>shape = [1, 0], elems = []\<rparr>
     \<lparr>shape = [1, 1], elems = [Fin 7]\<rparr> None
   = Inr (\<lparr>shape = [1, 1], elems = [NaN]\<rparr>, \<lparr>shape = [1, 1], elems = [NaN]\<rparr>)"
  by (simp add: eval_defs)

lemma no_key_empty_rows:
  "scaled_dot_product_attention \<lparr>shape = [1, 1], elems = [Fin 3]\<rparr> \<lparr>shape = [0, 1], elems = []\<rparr>
     \<lparr>shape = [0, 1], elems = []\<rparr> None
   = Inr (\<lparr>shape = [1, 1], elems = [Fin 0]\<rparr>, \<lparr>shape = [1, 0], elems = []\<rparr>)"
  by (simp add: eval_defs)

section \<open>Properties of the attention function\<close>



text \<open>
  Claim C8. For \<open>q\<close> of shape \<open>(B, Sq, Dk)\<close>, \<open>k\<close> of shape \<open>(B, Sk, Dk)\<close> and \<open>v\<close> of
  shape \<open>(B, Sk, Dv)\<close>, without a mask or with a mask broadcastable to \<open>(B, Sq, Sk)\<close>,
  the function returns an output of shape \<open>(B, Sq, Dv)\<close> and weights of shape
  \<open>(B, Sq, Sk)\<close>.
\<close>

theorem attention_shapes:
  assumes "shape q = [B, Sq, Dk]" "shape k = [B, Sk, Dk]" "shape v = [B, Sk, Dv]"
    and "msk = None \<or> (\<exists>m. msk = Some m \<and> wf_tensor m \<and> expandable (shape m) [B, Sq, Sk])"
  shows "\<exists>out w. scaled_dot_product_attention q k v msk = Inr (out, w)
      \<and> shape out = [B, Sq, Dv] \<and> shape w = [B, Sq, Sk]"
proof -
  have sh: "shape q = [B] @ [Sq, Dk]" "shape k = [B] @ [Sk, Dk]" "shape v = [B] @ [Sk, Dv]"
    using assms(1-3) by simp_all
  have b: "broadcast_shapes [B] [B] = Some [B]" by simp
  have mk: "msk = None \<or> (\<exists>m. msk = Some m \<and> wf_tensor m \<and> expandable (shape m) ([B] @ [Sq, Sk]))"
    using assms(4) by simp
  from sdpa_char[OF sh b b mk] show ?thesis by auto
qed

text \<open>The instance of C8 with the shapes of the notebook: batch 1, sequence length 3, dimension 3.\<close>

theorem attention_shapes_witness:
  "\<exists>out w. scaled_dot_product_attention (build [1, 3, 3] (\<lambda>_. Fin 0)) (build [1, 3, 3] (\<lambda>_. Fin 0))
       (build [1, 3, 3] (\<lambda>_. Fin 0)) None = Inr (out, w)
     \<and> shape out = [1, 3, 3] \<and> shape w = [1, 3, 3]"
  using attention_shapes[of "build [1, 3, 3] (\<lambda>_. Fin 0)" 1 3 3 "build [1, 3, 3] (\<lambda>_. Fin 0)" 3
      "build [1, 3, 3] (\<lambda>_. Fin 0)" 3 None]
  by simp







text \<open>
  In the same way a mask can hide a disagreement of \<open>k\<close> and \<open>v\<close> on the key length:
  here \<open>k\<close> has one key and \<open>v\<close> two values, and the mask of shape \<open>(1, 2)\<close> expands
  the scores to two columns.
\<close>

lemma kv_mismatch_accepted:
  "scaled_dot_product_attention
     \<lparr>shape = [1, 1, 1], elems = [Fin 0]\<rparr> \<lparr>shape = [1, 1, 1], elems = [Fin 0]\<rparr>
     \<lparr>shape = [1, 2, 1], elems = [Fin 2, Fin 4]\<rparr> (Some \<lparr>shape = [1, 2], elems = [Fin 1, Fin 1]\<rparr>)
   = Inr (\<lparr>shape = [1, 1, 1], elems = [Fin 3]\<rparr>, \<lparr>shape = [1, 1, 2], elems = [Fin (1/2), Fin (1/2)]\<rparr>)"
  by (simp add: eval_defs)



end
